theory Spec2Isabelle
  imports Main "HOL-Library.AList"
begin

section \<open>The tool registry of \<^verbatim>\<open>toolsets/toolsets.py\<close>\<close>

text \<open>
  The registry (\<^verbatim>\<open>ToolsetManager\<close>) keeps three containers: \<^verbatim>\<open>_tools\<close>, a dict from the
  callable to its \<^verbatim>\<open>_ToolInfo\<close> object; \<^verbatim>\<open>groups\<close>, a dict from a group name to a list of
  \<^verbatim>\<open>_ToolInfo\<close> objects; and \<^verbatim>\<open>enabled\<close>, a set of group names. Both dicts hold references
  to the same \<^verbatim>\<open>_ToolInfo\<close> objects and \<^verbatim>\<open>set_group\<close> assigns to a field of such an object,
  so the objects live in an explicit store and the containers hold addresses.

  \<^item> A callable is used only as a dict key and compared with \<^verbatim>\<open>!=\<close>; for a function object
    both are by identity, so a callable is its identity, a natural number.
  \<^item> The store is the list of all \<^verbatim>\<open>_ToolInfo\<close> objects ever constructed; an address is an
    index into it and constructing an object appends to it.
  \<^item> A Python dict keeps its keys in insertion order and assigning to an existing key keeps
    the key's position: an association list updated with \<^const>\<open>AList.update\<close>.
  \<^item> Strings are lists of characters with code points below 256.
\<close>

subsection \<open>Data\<close>

datatype pyval = PyNone | PyBool bool | PyInt int | PyStr string

type_synonym func = nat
type_synonym addr = nat
type_synonym kwargs_dict = "(string \<times> pyval) list"

record ToolInfo =
  func :: func
  args :: "pyval list"
  kwargs :: kwargs_dict
  group :: string

record ToolsetManager =
  store :: "ToolInfo list"
  tools :: "(func \<times> addr) list"
  groups :: "(string \<times> addr list) list"
  enabled :: "string set"

datatype py_error = KeyError

text \<open>\<^verbatim>\<open>ToolsetManager.__init__\<close>: two empty dicts and an empty set; no record exists yet.\<close>

definition init :: ToolsetManager where
  "init = \<lparr>store = [], tools = [], groups = [], enabled = {}\<rparr>"

subsection \<open>Dict primitives\<close>

text \<open>\<^verbatim>\<open>d[k]\<close> raises \<^verbatim>\<open>KeyError\<close> on a missing key; \<^verbatim>\<open>d.get(k, default)\<close> does not.\<close>

definition getitem :: "('k \<times> 'v) list \<Rightarrow> 'k \<Rightarrow> py_error + 'v" where
  "getitem d k = (case map_of d k of None \<Rightarrow> Inl KeyError | Some v \<Rightarrow> Inr v)"

definition get_default :: "('k \<times> 'v) list \<Rightarrow> 'k \<Rightarrow> 'v \<Rightarrow> 'v" where
  "get_default d k dflt = (case map_of d k of None \<Rightarrow> dflt | Some v \<Rightarrow> v)"

text \<open>
  Lines 43--44 and 60--61, the same statement in \<^verbatim>\<open>add_tool\<close> and \<^verbatim>\<open>set_group\<close>:
  \<^verbatim>\<open>if g in self.groups: self.groups[g] = [i for i in self.groups[g] if i.func != func]\<close>.
  The comprehension reads the \<^verbatim>\<open>func\<close> field of every listed object through the store.
\<close>

definition remove_from_group ::
    "ToolInfo list \<Rightarrow> (string \<times> addr list) list \<Rightarrow> string \<Rightarrow> func \<Rightarrow>
     py_error + (string \<times> addr list) list" where
  "remove_from_group st gs g f =
     (if g \<in> set (map fst gs) then
        (case getitem gs g of
           Inl e \<Rightarrow> Inl e
         | Inr ms \<Rightarrow> Inr (AList.update g (filter (\<lambda>i. func (st ! i) \<noteq> f) ms) gs))
      else Inr gs)"

text \<open>Lines 47 and 63: \<^verbatim>\<open>self.groups.setdefault(group, []).append(info)\<close>.\<close>

definition setdefault_append ::
    "(string \<times> addr list) list \<Rightarrow> string \<Rightarrow> addr \<Rightarrow> (string \<times> addr list) list" where
  "setdefault_append gs g a = AList.update g (get_default gs g [] @ [a]) gs"

subsection \<open>Operations\<close>

text \<open>
  \<^verbatim>\<open>add_tool(func, group, args, kwargs)\<close>. An omitted \<^verbatim>\<open>args\<close> or \<^verbatim>\<open>kwargs\<close> is \<^verbatim>\<open>None\<close>
  and becomes the empty tuple or dict. Line 45 constructs a new \<^verbatim>\<open>_ToolInfo\<close> on every
  call, also when the callable already has one; line 46 stores it under the callable.
\<close>

definition add_tool ::
    "ToolsetManager \<Rightarrow> func \<Rightarrow> string \<Rightarrow> pyval list option \<Rightarrow> kwargs_dict option \<Rightarrow>
     py_error + ToolsetManager" where
  "add_tool s f g a kw =
     (let a' = (case a of None \<Rightarrow> [] | Some x \<Rightarrow> x);
          kw' = (case kw of None \<Rightarrow> [] | Some x \<Rightarrow> x)
      in case (case map_of (tools s) f of
                 None \<Rightarrow> Inr (groups s)
               | Some i \<Rightarrow> remove_from_group (store s) (groups s) (group (store s ! i)) f) of
           Inl e \<Rightarrow> Inl e
         | Inr gs \<Rightarrow>
             (let n = length (store s);
                  info = \<lparr>func = f, args = a', kwargs = kw', group = g\<rparr>
              in Inr (s\<lparr>store := store s @ [info],
                        tools := AList.update f n (tools s),
                        groups := setdefault_append gs g n\<rparr>)))"

text \<open>
  \<^verbatim>\<open>set_group(func, group)\<close>: an unknown callable is added with the default parameters;
  a callable already in the group is left alone; otherwise the object is taken out of its
  old list, its \<^verbatim>\<open>group\<close> field is assigned in place, and it is appended to the new list.
\<close>

definition set_group :: "ToolsetManager \<Rightarrow> func \<Rightarrow> string \<Rightarrow> py_error + ToolsetManager" where
  "set_group s f g =
     (case map_of (tools s) f of
        None \<Rightarrow> add_tool s f g None None
      | Some i \<Rightarrow>
          if group (store s ! i) = g then Inr s
          else (case remove_from_group (store s) (groups s) (group (store s ! i)) f of
                  Inl e \<Rightarrow> Inl e
                | Inr gs \<Rightarrow>
                    Inr (s\<lparr>store := (store s)[i := (store s ! i)\<lparr>group := g\<rparr>],
                          groups := setdefault_append gs g i\<rparr>)))"

text \<open>\<^verbatim>\<open>enable(*groups)\<close>: the loop adds each name to the set.\<close>

definition enable :: "ToolsetManager \<Rightarrow> string list \<Rightarrow> ToolsetManager" where
  "enable s gs = fold (\<lambda>g s'. s'\<lparr>enabled := insert g (enabled s')\<rparr>) gs s"

definition get_registered_groups :: "ToolsetManager \<Rightarrow> string list" where
  "get_registered_groups s = map fst (groups s)"

text \<open>
  \<^verbatim>\<open>get_enabled_tools\<close> builds a dict with one key for each enabled name; the value is the
  list of callables of \<^verbatim>\<open>self.groups.get(name, [])\<close>.
\<close>

definition get_enabled_tools :: "ToolsetManager \<Rightarrow> string \<rightharpoonup> func list" where
  "get_enabled_tools s =
     (\<lambda>name. if name \<in> enabled s
              then Some (map (\<lambda>i. func (store s ! i)) (get_default (groups s) name []))
              else None)"

subsection \<open>Activation\<close>

text \<open>
  The host is \<^verbatim>\<open>FastMCP\<close>, a library outside the repository. Its registration
  \<^verbatim>\<open>FastMCP.tool(mcp, *args, **kwargs)(func)\<close> is a parameter \<open>reg\<close>: from the host's state and
  the call it gives the host's new state and the exception it raised, if any.
\<close>

type_synonym call = "func \<times> pyval list \<times> kwargs_dict"

text \<open>\<^verbatim>\<open>self._tools.values()\<close>: the objects of the dict, in the order of its keys.\<close>

definition tools_values :: "ToolsetManager \<Rightarrow> ToolInfo list" where
  "tools_values s = map (\<lambda>(f, i). store s ! i) (tools s)"

fun register_loop ::
    "('h \<Rightarrow> call \<Rightarrow> 'h \<times> 'e option) \<Rightarrow> string set \<Rightarrow> ToolInfo list \<Rightarrow> 'h \<Rightarrow> 'h \<times> 'e option" where
  "register_loop reg en [] h = (h, None)"
| "register_loop reg en (info # rest) h =
     (if group info \<in> en then
        (case reg h (func info, args info, kwargs info) of
           (h', Some e) \<Rightarrow> (h', Some e)
         | (h', None) \<Rightarrow> register_loop reg en rest h')
      else register_loop reg en rest h)"

definition register_enabled ::
    "('h \<Rightarrow> call \<Rightarrow> 'h \<times> 'e option) \<Rightarrow> ToolsetManager \<Rightarrow> 'h \<Rightarrow> 'h \<times> 'e option" where
  "register_enabled reg s h = register_loop reg (enabled s) (tools_values s) h"

subsection \<open>The start-up entry point\<close>

text \<open>
  \<^verbatim>\<open>str.strip()\<close> removes the leading and trailing characters for which \<^verbatim>\<open>str.isspace\<close>
  holds. Below 256 these are the code points 9 to 13, 28 to 32, 133 and 160.
\<close>

definition isspace :: "char \<Rightarrow> bool" where
  "isspace c = ((of_char c :: nat) \<in> {9, 10, 11, 12, 13, 28, 29, 30, 31, 32, 133, 160})"

definition strip :: "string \<Rightarrow> string" where
  "strip s = rev (dropWhile isspace (rev (dropWhile isspace s)))"

text \<open>
  \<^verbatim>\<open>s.split(sep)\<close> for a separator of one character: the fields between the separators,
  empty fields included, so that the empty string has one empty field.
\<close>

fun split :: "char \<Rightarrow> string \<Rightarrow> string list" where
  "split sep [] = [[]]"
| "split sep (c # cs) =
     (if c = sep then [] # split sep cs
      else (case split sep cs of [] \<Rightarrow> [[c]] | t # ts \<Rightarrow> (c # t) # ts))"

text \<open>The argument \<^verbatim>\<open>toolsets: list[str] | str | None\<close>.\<close>

datatype selector = Absent | Single string | Listed "string list"

text \<open>
  Lines 122--127 compute the local variable \<^verbatim>\<open>enabled\<close>; \<^verbatim>\<open>xs or ["default"]\<close> is
  \<^verbatim>\<open>["default"]\<close> exactly when the list \<^verbatim>\<open>xs\<close> is empty.
\<close>

definition selected_groups :: "selector \<Rightarrow> string list" where
  "selected_groups toolsets =
     (case toolsets of
        Absent \<Rightarrow> [''default'']
      | Single str \<Rightarrow>
          (let xs = map strip (filter (\<lambda>g. strip g \<noteq> []) (split (CHR '','') str))
           in if xs = [] then [''default''] else xs)
      | Listed l \<Rightarrow> (if l = [] then [''default''] else l))"

text \<open>
  \<^verbatim>\<open>initialize_toolsets\<close>. The call \<^verbatim>\<open>load_groups(_server.toolset_manager, _server)\<close>
  depends on the module \<^verbatim>\<open>server.py\<close>, which is not among the sources: its effect on the
  registry is the parameter \<open>load\<close>, giving the registry it leaves and the exception it
  raised, if any. The registry of \<^verbatim>\<open>_server.mcp\<close> is taken to be \<^verbatim>\<open>_server.toolset_manager\<close>.
\<close>

definition initialize_toolsets ::
    "(ToolsetManager \<Rightarrow> ToolsetManager \<times> 'e option) \<Rightarrow> ('h \<Rightarrow> call \<Rightarrow> 'h \<times> 'e option) \<Rightarrow>
     selector \<Rightarrow> ToolsetManager \<Rightarrow> 'h \<Rightarrow> ToolsetManager \<times> 'h \<times> 'e option" where
  "initialize_toolsets load reg toolsets s h =
     (case load s of
        (s1, Some e) \<Rightarrow> (s1, h, Some e)
      | (s1, None) \<Rightarrow>
          (let s2 = enable s1 (selected_groups toolsets);
               (h', r) = register_enabled reg s2 h
           in (s2, h', r)))"

subsection \<open>Sequences of calls\<close>

datatype cmd =
    AddTool func string "pyval list option" "kwargs_dict option"
  | SetGroup func string

fun step :: "ToolsetManager \<Rightarrow> cmd \<Rightarrow> py_error + ToolsetManager" where
  "step s (AddTool f g a kw) = add_tool s f g a kw"
| "step s (SetGroup f g) = set_group s f g"

fun run :: "ToolsetManager \<Rightarrow> cmd list \<Rightarrow> py_error + ToolsetManager" where
  "run s [] = Inr s"
| "run s (c # cs) = (case step s c of Inl e \<Rightarrow> Inl e | Inr s' \<Rightarrow> run s' cs)"


subsection \<open>Well-formed registries\<close>

text \<open>
  A Python reference always designates a live object: every address held by a container
  is an index of the store.
\<close>

definition valid_refs :: "ToolsetManager \<Rightarrow> bool" where
  "valid_refs s \<longleftrightarrow>
     list_all (\<lambda>(f, i). i < length (store s)) (tools s) \<and>
     list_all (\<lambda>(g, ms). list_all (\<lambda>i. i < length (store s)) ms) (groups s)"

text \<open>The entries that the list of group \<open>g\<close> holds for the callable \<open>f\<close>.\<close>

definition entries :: "ToolsetManager \<Rightarrow> string \<Rightarrow> func \<Rightarrow> addr list" where
  "entries s g f = filter (\<lambda>i. func (store s ! i) = f) (get_default (groups s) g [])"

text \<open>
  The record of a callable, its current group, and the consistency of the two dicts: the
  keys of each dict are distinct; the object stored under a callable is an object of that
  callable and is listed under the name in its \<^verbatim>\<open>group\<close> field; every list is free of
  repetitions and each object in the list of \<open>g\<close> has \<open>g\<close> in its \<^verbatim>\<open>group\<close> field and is the
  object stored under its callable.
\<close>

definition record_of :: "ToolsetManager \<Rightarrow> func \<rightharpoonup> ToolInfo" where
  "record_of s f = map_option (\<lambda>i. store s ! i) (map_of (tools s) f)"

definition consistent :: "ToolsetManager \<Rightarrow> bool" where
  "consistent s \<longleftrightarrow>
     distinct (map fst (tools s)) \<and> distinct (map fst (groups s)) \<and>
     list_all (\<lambda>(f, i). i < length (store s) \<and> func (store s ! i) = f \<and>
                 i \<in> set (get_default (groups s) (group (store s ! i)) [])) (tools s) \<and>
     list_all (\<lambda>(g, ms). distinct ms \<and>
                 list_all (\<lambda>i. i < length (store s) \<and> group (store s ! i) = g \<and>
                             map_of (tools s) (func (store s ! i)) = Some i) ms) (groups s)"

subsection \<open>Derived notions used in the statements\<close>

text \<open>The dict \<^verbatim>\<open>groups\<close> after the list of \<open>g\<close>, if there is one, has lost the objects of \<open>f\<close>.\<close>

definition without ::
    "ToolInfo list \<Rightarrow> (string \<times> addr list) list \<Rightarrow> string \<Rightarrow> func \<Rightarrow> (string \<times> addr list) list" where
  "without st gs g f =
     (case map_of gs g of
        None \<Rightarrow> gs
      | Some ms \<Rightarrow> AList.update g (filter (\<lambda>i. func (st ! i) \<noteq> f) ms) gs)"

text \<open>The registration parameters stored for a callable.\<close>

definition stored_params :: "ToolsetManager \<Rightarrow> func \<rightharpoonup> pyval list \<times> kwargs_dict" where
  "stored_params s f = map_option (\<lambda>r. (args r, kwargs r)) (record_of s f)"

text \<open>Whether activation is to register a callable: it has a record whose group is enabled.\<close>

definition selected :: "ToolsetManager \<Rightarrow> func \<Rightarrow> bool" where
  "selected s f = (case record_of s f of None \<Rightarrow> False | Some r \<Rightarrow> group r \<in> enabled s)"

text \<open>
  What activation is specified to do: the calls for the records whose group is enabled, in
  the order of the tool map, handed to the host one after the other until one raises.
\<close>

definition selected_calls :: "ToolsetManager \<Rightarrow> call list" where
  "selected_calls s =
     map (\<lambda>r. (func r, args r, kwargs r)) (filter (\<lambda>r. group r \<in> enabled s) (tools_values s))"

fun call_seq :: "('h \<Rightarrow> call \<Rightarrow> 'h \<times> 'e option) \<Rightarrow> call list \<Rightarrow> 'h \<Rightarrow> 'h \<times> 'e option" where
  "call_seq reg [] h = (h, None)"
| "call_seq reg (c # cs) h =
     (case reg h c of
        (h', Some e) \<Rightarrow> (h', Some e)
      | (h', None) \<Rightarrow> call_seq reg cs h')"

text \<open>The inverse of \<^const>\<open>split\<close>: the fields with the separator between them.\<close>

fun join :: "char \<Rightarrow> string list \<Rightarrow> string" where
  "join sep [] = []"
| "join sep [t] = t"
| "join sep (t # u # ts) = t @ sep # join sep (u # ts)"


text \<open>
  Two hosts for the examples: one that records every call and never raises, and one that
  raises \<open>e\<close> for the callables in \<open>bad\<close> and records the other calls.
\<close>

definition log_host :: "call list \<Rightarrow> call \<Rightarrow> call list \<times> string option" where
  "log_host h c = (h @ [c], None)"

definition raising_host ::
    "func list \<Rightarrow> string \<Rightarrow> call list \<Rightarrow> call \<Rightarrow> call list \<times> string option" where
  "raising_host bad e h c = (if fst c \<in> set bad then (h, Some e) else (h @ [c], None))"

subsection \<open>Example registries\<close>

text \<open>
  Three tools in three groups with two groups enabled, and the same registry after the first
  tool has been moved to the group that is not enabled.
\<close>

definition ex_registry :: ToolsetManager where
  "ex_registry =
     \<lparr>store = [\<lparr>func = 1, args = [PyStr ''a''], kwargs = [], group = ''rds''\<rparr>,
               \<lparr>func = 2, args = [], kwargs = [(''name'', PyStr ''b'')], group = ''default''\<rparr>,
               \<lparr>func = 3, args = [], kwargs = [], group = ''custom''\<rparr>],
      tools = [(1, 0), (2, 1), (3, 2)],
      groups = [(''default'', [1]), (''rds'', [0]), (''custom'', [2])],
      enabled = {''rds'', ''custom''}\<rparr>"

definition ex_moved :: ToolsetManager where
  "ex_moved =
     \<lparr>store = [\<lparr>func = 1, args = [PyStr ''a''], kwargs = [], group = ''default''\<rparr>,
               \<lparr>func = 2, args = [], kwargs = [(''name'', PyStr ''b'')], group = ''default''\<rparr>,
               \<lparr>func = 3, args = [], kwargs = [], group = ''custom''\<rparr>],
      tools = [(1, 0), (2, 1), (3, 2)],
      groups = [(''default'', [1, 0]), (''rds'', []), (''custom'', [2])],
      enabled = {''rds'', ''custom''}\<rparr>"

text \<open>The first example after its first tool has been added again, to another group.\<close>

definition ex_readded :: ToolsetManager where
  "ex_readded =
     \<lparr>store = [\<lparr>func = 1, args = [PyStr ''a''], kwargs = [], group = ''rds''\<rparr>,
               \<lparr>func = 2, args = [], kwargs = [(''name'', PyStr ''b'')], group = ''default''\<rparr>,
               \<lparr>func = 3, args = [], kwargs = [], group = ''custom''\<rparr>,
               \<lparr>func = 1, args = [], kwargs = [], group = ''custom''\<rparr>],
      tools = [(1, 3), (2, 1), (3, 2)],
      groups = [(''default'', [1]), (''rds'', []), (''custom'', [2, 3])],
      enabled = {''rds'', ''custom''}\<rparr>"

text \<open>The first example after its first tool has been added again with another argument.\<close>

definition ex_reparam :: ToolsetManager where
  "ex_reparam =
     \<lparr>store = [\<lparr>func = 1, args = [PyStr ''a''], kwargs = [], group = ''rds''\<rparr>,
               \<lparr>func = 2, args = [], kwargs = [(''name'', PyStr ''b'')], group = ''default''\<rparr>,
               \<lparr>func = 3, args = [], kwargs = [], group = ''custom''\<rparr>,
               \<lparr>func = 1, args = [PyStr ''z''], kwargs = [], group = ''rds''\<rparr>],
      tools = [(1, 3), (2, 1), (3, 2)],
      groups = [(''default'', [1]), (''rds'', [3]), (''custom'', [2])],
      enabled = {''rds'', ''custom''}\<rparr>"

section \<open>Properties\<close>

subsection \<open>The operations as state transformers\<close>

lemma remove_from_group_eq: "remove_from_group st gs g f = Inr (without st gs g f)"
proof -
  have "g \<in> set (map fst gs) \<longleftrightarrow> map_of gs g \<noteq> None"
    by (simp add: map_of_eq_None_iff)
  then show ?thesis
    by (simp add: remove_from_group_def getitem_def without_def split: option.splits)
qed

lemma map_of_without:
  "map_of (without st gs g f) g' =
     (if g' = g then map_option (filter (\<lambda>i. func (st ! i) \<noteq> f)) (map_of gs g) else map_of gs g')"
  by (simp add: without_def AList.update_conv' split: option.splits)

lemma keys_without: "map fst (without st gs g f) = map fst gs"
proof (cases "map_of gs g")
  case None
  then show ?thesis by (simp add: without_def)
next
  case (Some ms)
  then have "g \<in> set (map fst gs)"
    by (metis map_of_eq_None_iff option.distinct(1) set_map)
  with Some show ?thesis by (simp add: without_def AList.update_keys)
qed

lemma get_default_without:
  "get_default (without st gs g f) g' [] =
     (if g' = g then filter (\<lambda>i. func (st ! i) \<noteq> f) (get_default gs g []) else get_default gs g' [])"
  by (simp add: get_default_def map_of_without split: option.splits)

lemma map_of_setdefault_append:
  "map_of (setdefault_append gs g a) g' =
     (if g' = g then Some (get_default gs g [] @ [a]) else map_of gs g')"
  by (simp add: setdefault_append_def AList.update_conv')

lemma get_default_setdefault_append:
  "get_default (setdefault_append gs g a) g' [] =
     (if g' = g then get_default gs g [] @ [a] else get_default gs g' [])"
  by (simp add: get_default_def map_of_setdefault_append)

lemma distinct_keys_setdefault_append:
  "distinct (map fst gs) \<Longrightarrow> distinct (map fst (setdefault_append gs g a))"
  by (simp add: setdefault_append_def AList.distinct_update)

lemma add_tool_eq:
  "add_tool s f g a kw =
     Inr (s\<lparr>store := store s @ [\<lparr>func = f, args = (case a of None \<Rightarrow> [] | Some x \<Rightarrow> x),
                                  kwargs = (case kw of None \<Rightarrow> [] | Some x \<Rightarrow> x), group = g\<rparr>],
            tools := AList.update f (length (store s)) (tools s),
            groups := setdefault_append
              (case map_of (tools s) f of None \<Rightarrow> groups s
               | Some i \<Rightarrow> without (store s) (groups s) (group (store s ! i)) f) g (length (store s))\<rparr>)"
  by (simp add: add_tool_def remove_from_group_eq Let_def split: option.splits)

lemma set_group_eq:
  "set_group s f g =
     (case map_of (tools s) f of
        None \<Rightarrow> add_tool s f g None None
      | Some i \<Rightarrow>
          if group (store s ! i) = g then Inr s
          else Inr (s\<lparr>store := (store s)[i := (store s ! i)\<lparr>group := g\<rparr>],
                     groups := setdefault_append
                        (without (store s) (groups s) (group (store s ! i)) f) g i\<rparr>))"
  by (simp add: set_group_def remove_from_group_eq split: option.splits)

lemma consistent_iff:
  "consistent s \<longleftrightarrow>
     distinct (map fst (tools s)) \<and> distinct (map fst (groups s)) \<and>
     (\<forall>f i. map_of (tools s) f = Some i \<longrightarrow>
        i < length (store s) \<and> func (store s ! i) = f \<and>
        i \<in> set (get_default (groups s) (group (store s ! i)) [])) \<and>
     (\<forall>g ms. map_of (groups s) g = Some ms \<longrightarrow>
        distinct ms \<and>
        (\<forall>i\<in>set ms. i < length (store s) \<and> group (store s ! i) = g \<and>
           map_of (tools s) (func (store s ! i)) = Some i))"
  unfolding consistent_def list_all_iff
  by (rule iffI; clarsimp; (intro conjI; fastforce))

lemma consistent_add_tool:
  assumes c: "consistent s" and r: "add_tool s f g a kw = Inr s'"
  shows "consistent s'"
proof -
  define n where "n = length (store s)"
  define info where "info = \<lparr>func = f, args = (case a of None \<Rightarrow> [] | Some x \<Rightarrow> x),
                                  kwargs = (case kw of None \<Rightarrow> [] | Some x \<Rightarrow> x), group = g\<rparr>"
  define gs1 where "gs1 = (case map_of (tools s) f of None \<Rightarrow> groups s
               | Some i \<Rightarrow> without (store s) (groups s) (group (store s ! i)) f)"
  from r have s': "s' = s\<lparr>store := store s @ [info], tools := AList.update f n (tools s),
        groups := setdefault_append gs1 g n\<rparr>"
    by (simp add: add_tool_eq n_def info_def gs1_def)
  from c have dt: "distinct (map fst (tools s))" and dg: "distinct (map fst (groups s))"
    and T: "\<And>f i. map_of (tools s) f = Some i \<Longrightarrow>
        i < n \<and> func (store s ! i) = f \<and>
        i \<in> set (get_default (groups s) (group (store s ! i)) [])"
    and G: "\<And>g ms i. map_of (groups s) g = Some ms \<Longrightarrow> i \<in> set ms \<Longrightarrow>
        i < n \<and> group (store s ! i) = g \<and> map_of (tools s) (func (store s ! i)) = Some i"
    and D: "\<And>g ms. map_of (groups s) g = Some ms \<Longrightarrow> distinct ms"
    unfolding consistent_iff n_def by blast+
  have G': "\<And>g i. i \<in> set (get_default (groups s) g []) \<Longrightarrow>
        i < n \<and> group (store s ! i) = g \<and> map_of (tools s) (func (store s ! i)) = Some i"
  proof -
    fix g i assume "i \<in> set (get_default (groups s) g [])"
    then obtain ms where "map_of (groups s) g = Some ms" "i \<in> set ms"
      by (cases "map_of (groups s) g") (auto simp: get_default_def)
    then show "i < n \<and> group (store s ! i) = g \<and> map_of (tools s) (func (store s ! i)) = Some i"
      by (rule G)
  qed
  have D': "distinct (get_default (groups s) g' [])" for g'
    using D[of g'] by (cases "map_of (groups s) g'") (auto simp: get_default_def)
  have keys1: "map fst gs1 = map fst (groups s)"
    by (simp add: gs1_def keys_without split: option.splits)
  have L1: "get_default gs1 g' [] =
      (case map_of (tools s) f of None \<Rightarrow> get_default (groups s) g' []
       | Some i \<Rightarrow> if g' = group (store s ! i)
                   then filter (\<lambda>j. func (store s ! j) \<noteq> f) (get_default (groups s) g' [])
                   else get_default (groups s) g' [])" for g'
    by (simp add: gs1_def get_default_without split: option.splits)
  have sub1: "set (get_default gs1 g' []) \<subseteq> set (get_default (groups s) g' [])" for g'
    by (auto simp: L1 split: option.splits)
  have nof: "func (store s ! i) \<noteq> f" if "i \<in> set (get_default gs1 g' [])" for i g'
  proof (cases "map_of (tools s) f")
    case None
    with that G'[of i g'] sub1[of g'] show ?thesis by auto
  next
    case (Some j)
    show ?thesis
    proof
      assume "func (store s ! i) = f"
      moreover from that sub1 have m: "i \<in> set (get_default (groups s) g' [])" by blast
      ultimately have "i = j" and "group (store s ! i) = g'" using G'[OF m] Some by auto
      with that Some \<open>func (store s ! i) = f\<close> show False by (simp add: L1)
    qed
  qed
  have keep: "i \<in> set (get_default gs1 g' [])"
    if "i \<in> set (get_default (groups s) g' [])" "func (store s ! i) \<noteq> f" for i g'
    using that by (auto simp: L1 split: option.splits)
  have d1: "distinct (get_default gs1 g' [])" for g'
    using D'[of g'] by (auto simp: L1 split: option.splits)
  have m1: "map_of gs1 g' = Some ms \<Longrightarrow> get_default gs1 g' [] = ms" for g' ms
    by (simp add: get_default_def)
  show ?thesis
    unfolding consistent_iff
  proof (intro conjI allI impI ballI)
    show "distinct (map fst (tools s'))" using dt by (simp add: s' AList.distinct_update)
    show "distinct (map fst (groups s'))"
      using dg by (simp add: s' distinct_keys_setdefault_append keys1)
  next
    fix f' i assume "map_of (tools s') f' = Some i"
    then have cases: "(f' = f \<and> i = n) \<or> (f' \<noteq> f \<and> map_of (tools s) f' = Some i)"
      by (auto simp: s' AList.update_conv' split: if_splits)
    show "i < length (store s')" using cases T[of f' i] by (auto simp: s' n_def)
    show "func (store s' ! i) = f'" using cases T[of f' i]
      by (auto simp: s' n_def info_def nth_append)
    show "i \<in> set (get_default (groups s') (group (store s' ! i)) [])"
    proof -
      from cases show ?thesis
      proof
        assume "f' = f \<and> i = n"
        then show ?thesis by (simp add: s' n_def info_def get_default_setdefault_append)
      next
        assume a: "f' \<noteq> f \<and> map_of (tools s) f' = Some i"
        with T[of f' i] have "i < n" "func (store s ! i) = f'"
          "i \<in> set (get_default (groups s) (group (store s ! i)) [])" by auto
        with a keep[of i "group (store s ! i)"] show ?thesis
          by (auto simp: s' n_def nth_append get_default_setdefault_append)
      qed
    qed
  next
    fix g' ms assume "map_of (groups s') g' = Some ms"
    then have ms: "ms = (if g' = g then get_default gs1 g [] @ [n] else get_default gs1 g' [])"
      by (auto simp: s' map_of_setdefault_append m1 split: if_splits)
    have old: "i < n" if "i \<in> set (get_default gs1 g'' [])" for i g''
      using that sub1[of g''] G'[of i g''] by auto
    show "distinct ms" using d1 old by (auto simp: ms)
    fix i assume i: "i \<in> set ms"
    then have cases: "(g' = g \<and> i = n) \<or> i \<in> set (get_default gs1 g' [])"
      by (auto simp: ms split: if_splits)
    then show "i < length (store s')" using old[of i g'] by (auto simp: s' n_def)
    from cases show "group (store s' ! i) = g'"
    proof
      assume "g' = g \<and> i = n" then show ?thesis by (simp add: s' n_def info_def)
    next
      assume a: "i \<in> set (get_default gs1 g' [])"
      with old[OF a] sub1[of g'] G'[of i g'] show ?thesis
        by (auto simp: s' n_def nth_append)
    qed
    from cases show "map_of (tools s') (func (store s' ! i)) = Some i"
    proof
      assume "g' = g \<and> i = n"
      then show ?thesis by (simp add: s' n_def info_def AList.update_conv')
    next
      assume a: "i \<in> set (get_default gs1 g' [])"
      with old[OF a] sub1[of g'] G'[of i g'] nof[OF a] show ?thesis
        by (auto simp: s' n_def nth_append AList.update_conv')
    qed
  qed
qed


lemma consistent_set_group:
  assumes c: "consistent s" and r: "set_group s f g = Inr s'"
  shows "consistent s'"
proof (cases "map_of (tools s) f")
  case None
  with r have "add_tool s f g None None = Inr s'" by (simp add: set_group_def)
  with c show ?thesis by (rule consistent_add_tool)
next
  case (Some i)
  show ?thesis
  proof (cases "group (store s ! i) = g")
    case True
    with Some r c show ?thesis by (simp add: set_group_eq)
  next
    case False
    define n where "n = length (store s)"
    define og where "og = group (store s ! i)"
    define gs1 where "gs1 = without (store s) (groups s) og f"
    from r Some False have s': "s' = s\<lparr>store := (store s)[i := (store s ! i)\<lparr>group := g\<rparr>],
          groups := setdefault_append gs1 g i\<rparr>"
      by (simp add: set_group_eq gs1_def og_def)
    have ne: "og \<noteq> g" using False by (simp add: og_def)
    from c have dt: "distinct (map fst (tools s))" and dg: "distinct (map fst (groups s))"
      and T: "\<And>f i. map_of (tools s) f = Some i \<Longrightarrow>
          i < n \<and> func (store s ! i) = f \<and>
          i \<in> set (get_default (groups s) (group (store s ! i)) [])"
      and G: "\<And>g ms i. map_of (groups s) g = Some ms \<Longrightarrow> i \<in> set ms \<Longrightarrow>
          i < n \<and> group (store s ! i) = g \<and> map_of (tools s) (func (store s ! i)) = Some i"
      and D: "\<And>g ms. map_of (groups s) g = Some ms \<Longrightarrow> distinct ms"
      unfolding consistent_iff n_def by blast+
    have G': "\<And>g i. i \<in> set (get_default (groups s) g []) \<Longrightarrow>
          i < n \<and> group (store s ! i) = g \<and> map_of (tools s) (func (store s ! i)) = Some i"
    proof -
      fix g i assume "i \<in> set (get_default (groups s) g [])"
      then obtain ms where "map_of (groups s) g = Some ms" "i \<in> set ms"
        by (cases "map_of (groups s) g") (auto simp: get_default_def)
      then show "i < n \<and> group (store s ! i) = g \<and> map_of (tools s) (func (store s ! i)) = Some i"
        by (rule G)
    qed
    have D': "distinct (get_default (groups s) g' [])" for g'
      using D[of g'] by (cases "map_of (groups s) g'") (auto simp: get_default_def)
    from T[OF Some] have i_lt: "i < n" and i_f: "func (store s ! i) = f"
      and i_in: "i \<in> set (get_default (groups s) og [])" by (auto simp: og_def)
    have keys1: "map fst gs1 = map fst (groups s)" by (simp add: gs1_def keys_without)
    have L1: "get_default gs1 g' [] =
        (if g' = og then filter (\<lambda>j. func (store s ! j) \<noteq> f) (get_default (groups s) g' [])
         else get_default (groups s) g' [])" for g'
      by (simp add: gs1_def get_default_without)
    have sub1: "set (get_default gs1 g' []) \<subseteq> set (get_default (groups s) g' [])" for g'
      by (auto simp: L1)
    have d1: "distinct (get_default gs1 g' [])" for g'
      using D'[of g'] by (auto simp: L1)
    have m1: "map_of gs1 g' = Some ms \<Longrightarrow> get_default gs1 g' [] = ms" for g' ms
      by (simp add: get_default_def)
    have noti: "j \<noteq> i" if "j \<in> set (get_default gs1 g' [])" for j g'
    proof
      assume "j = i"
      with that have a: "i \<in> set (get_default gs1 g' [])" by simp
      with sub1 have "i \<in> set (get_default (groups s) g' [])" by blast
      from G'[OF this] have "g' = og" by (simp add: og_def)
      with a i_f show False by (simp add: L1)
    qed
    have st_other: "store s' ! j = store s ! j" if "j \<noteq> i" for j
      using that by (simp add: s')
    have st_i: "store s' ! i = (store s ! i)\<lparr>group := g\<rparr>"
      using i_lt by (simp add: s' n_def)
    have func_same: "func (store s' ! j) = func (store s ! j)" for j
      by (cases "j = i") (simp_all add: st_other st_i)
    show ?thesis
      unfolding consistent_iff
    proof (intro conjI allI impI ballI)
      show "distinct (map fst (tools s'))" using dt by (simp add: s')
      show "distinct (map fst (groups s'))"
        using dg by (simp add: s' distinct_keys_setdefault_append keys1)
    next
      fix f' j assume "map_of (tools s') f' = Some j"
      then have tj: "map_of (tools s) f' = Some j" by (simp add: s')
      from T[OF tj] have j_lt: "j < n" and j_f: "func (store s ! j) = f'"
        and j_in: "j \<in> set (get_default (groups s) (group (store s ! j)) [])" by auto
      show "j < length (store s')" using j_lt by (simp add: s' n_def)
      show "func (store s' ! j) = f'" using j_f by (simp add: func_same)
      show "j \<in> set (get_default (groups s') (group (store s' ! j)) [])"
      proof (cases "j = i")
        case True
        then show ?thesis by (simp add: st_i) (simp add: s' get_default_setdefault_append)
      next
        case False
        with tj Some have "f' \<noteq> f" by auto
        with j_f j_in have "j \<in> set (get_default gs1 (group (store s ! j)) [])"
          by (auto simp: L1)
        with False show ?thesis
          by (simp add: st_other) (auto simp: s' get_default_setdefault_append)
      qed
    next
      fix g' ms assume "map_of (groups s') g' = Some ms"
      then have ms: "ms = (if g' = g then get_default gs1 g [] @ [i] else get_default gs1 g' [])"
        by (auto simp: s' map_of_setdefault_append m1 split: if_splits)
      show "distinct ms" using d1[of g] d1[of g'] noti[of i g] by (auto simp: ms)
      fix j assume j: "j \<in> set ms"
      then have cases: "(g' = g \<and> j = i) \<or> j \<in> set (get_default gs1 g' [])"
        by (auto simp: ms split: if_splits)
      from cases show "j < length (store s')"
      proof
        assume "g' = g \<and> j = i" then show ?thesis using i_lt by (simp add: s' n_def)
      next
        assume a: "j \<in> set (get_default gs1 g' [])"
        with sub1 have "j \<in> set (get_default (groups s) g' [])" by blast
        from G'[OF this] show ?thesis by (simp add: s' n_def)
      qed
      from cases show "group (store s' ! j) = g'"
      proof
        assume "g' = g \<and> j = i" then show ?thesis by (simp add: st_i)
      next
        assume a: "j \<in> set (get_default gs1 g' [])"
        with sub1 have "j \<in> set (get_default (groups s) g' [])" by blast
        from G'[OF this] noti[OF a] show ?thesis by (simp add: st_other)
      qed
      from cases show "map_of (tools s') (func (store s' ! j)) = Some j"
      proof
        assume "g' = g \<and> j = i"
        then show ?thesis using Some i_f by (simp add: func_same) (simp add: s')
      next
        assume a: "j \<in> set (get_default gs1 g' [])"
        with sub1 have "j \<in> set (get_default (groups s) g' [])" by blast
        from G'[OF this] show ?thesis by (simp add: func_same) (simp add: s')
      qed
    qed
  qed
qed

lemma consistent_init: "consistent init"
  by (simp add: consistent_def init_def)

lemma enable_fields:
  "enabled (enable s gs) = enabled s \<union> set gs" "store (enable s gs) = store s"
  "tools (enable s gs) = tools s" "groups (enable s gs) = groups s"
  unfolding enable_def by (induction gs arbitrary: s) auto

lemma consistent_enable: "consistent (enable s gs) \<longleftrightarrow> consistent s"
  by (simp add: consistent_def enable_fields)

lemma add_tool_total: "\<exists>s'. add_tool s f g a kw = Inr s'"
  by (simp add: add_tool_eq)

lemma set_group_total: "\<exists>s'. set_group s f g = Inr s'"
  by (cases "map_of (tools s) f") (simp_all add: set_group_eq add_tool_eq)

lemma step_total: "\<exists>s'. step s c = Inr s'"
  by (cases c) (simp_all add: add_tool_total set_group_total)

lemma run_total: "\<exists>s'. run s cs = Inr s'"
proof (induction cs arbitrary: s)
  case Nil
  show ?case by simp
next
  case (Cons c cs)
  obtain s1 where "step s c = Inr s1"
    using step_total by blast
  with Cons.IH[of s1] show ?case by simp
qed

lemma consistent_run: "consistent s \<Longrightarrow> run s cs = Inr s' \<Longrightarrow> consistent s'"
proof (induction cs arbitrary: s)
  case Nil
  then show ?case by simp
next
  case (Cons c cs)
  from Cons.prems(2) obtain s1 where s1: "step s c = Inr s1" and rest: "run s1 cs = Inr s'"
    by (auto split: sum.splits)
  from s1 Cons.prems(1) have "consistent s1"
    by (cases c) (auto intro: consistent_add_tool consistent_set_group)
  then show ?case using rest by (rule Cons.IH)
qed

subsection \<open>Consistency of the two dicts\<close>

lemma filter_single:
  assumes "distinct xs" and "i \<in> set xs" and "\<And>j. j \<in> set xs \<Longrightarrow> P j \<longleftrightarrow> j = i"
  shows "filter P xs = [i]"
  using assms
proof (induction xs)
  case Nil
  then show ?case by simp
next
  case (Cons x xs)
  show ?case
  proof (cases "x = i")
    case True
    with Cons.prems have "i \<notin> set xs" by simp
    with Cons.prems(3) have "filter P xs = []"
      by (auto simp: filter_empty_conv)
    with True Cons.prems(3)[of i] show ?thesis by simp
  next
    case False
    with Cons.prems have "filter P xs = [i]"
      by (intro Cons.IH) auto
    with False Cons.prems(3)[of x] show ?thesis by simp
  qed
qed

lemma consistent_entries:
  assumes c: "consistent s"
  shows "entries s g f =
     (case map_of (tools s) f of
        None \<Rightarrow> []
      | Some i \<Rightarrow> if g = group (store s ! i) then [i] else [])"
proof -
  from c have
        T: "\<And>f i. map_of (tools s) f = Some i \<Longrightarrow>
        func (store s ! i) = f \<and>
        i \<in> set (get_default (groups s) (group (store s ! i)) [])"
    and G: "\<And>g ms i. map_of (groups s) g = Some ms \<Longrightarrow> i \<in> set ms \<Longrightarrow>
        group (store s ! i) = g \<and> map_of (tools s) (func (store s ! i)) = Some i"
    and D: "\<And>g ms. map_of (groups s) g = Some ms \<Longrightarrow> distinct ms"
    unfolding consistent_iff by blast+
  have G': "group (store s ! j) = g' \<and> map_of (tools s) (func (store s ! j)) = Some j"
    if "j \<in> set (get_default (groups s) g' [])" for j g'
  proof -
    from that obtain ms where "map_of (groups s) g' = Some ms" "j \<in> set ms"
      by (cases "map_of (groups s) g'") (auto simp: get_default_def)
    then show ?thesis by (rule G)
  qed
  have D': "distinct (get_default (groups s) g' [])" for g'
    using D[of g'] by (cases "map_of (groups s) g'") (auto simp: get_default_def)
  show ?thesis
  proof (cases "map_of (tools s) f")
    case None
    have "filter (\<lambda>i. func (store s ! i) = f) (get_default (groups s) g []) = []"
      using G'[of _ g] None by (auto simp: filter_empty_conv)
    with None show ?thesis by (simp add: entries_def)
  next
    case (Some i)
    show ?thesis
    proof (cases "g = group (store s ! i)")
      case True
      have "filter (\<lambda>j. func (store s ! j) = f) (get_default (groups s) g []) = [i]"
      proof (rule filter_single)
        show "distinct (get_default (groups s) g [])" by (rule D')
        show "i \<in> set (get_default (groups s) g [])" unfolding True using T[OF Some] by blast
        fix j assume "j \<in> set (get_default (groups s) g [])"
        then have m: "map_of (tools s) (func (store s ! j)) = Some j" using G' by blast
        show "func (store s ! j) = f \<longleftrightarrow> j = i"
        proof
          assume "func (store s ! j) = f"
          with m have "map_of (tools s) f = Some j" by simp
          with Some show "j = i" by simp
        next
          assume "j = i"
          with T[OF Some] show "func (store s ! j) = f" by blast
        qed
      qed
      with Some True show ?thesis by (simp add: entries_def)
    next
      case False
      have "filter (\<lambda>j. func (store s ! j) = f) (get_default (groups s) g []) = []"
        using G'[of _ g] Some False by (auto simp: filter_empty_conv)
      with Some False show ?thesis by (simp add: entries_def)
    qed
  qed
qed

subsection \<open>C2: every operation is listed in exactly one group\<close>

text \<open>
  C2. After any sequence of \<^verbatim>\<open>add_tool\<close> and \<^verbatim>\<open>set_group\<close> calls on a fresh registry (so
  also after each of its prefixes) the calls have all returned, the group names are
  distinct keys, and for every callable \<open>f\<close> and every group name \<open>g\<close> the entries for \<open>f\<close> in
  the list of \<open>g\<close> are: the one record stored for \<open>f\<close>, once, when \<open>g\<close> is the name in that
  record's \<^verbatim>\<open>group\<close> field, and none otherwise. So no operation is listed in two groups, none is
  missing from its own, and no list keeps an entry of a record that moved away or was replaced.
\<close>

theorem one_group_per_operation:
  "\<exists>s. run init cs = Inr s \<and> distinct (get_registered_groups s) \<and>
       (\<forall>f g. entries s g f =
          (case map_of (tools s) f of
             None \<Rightarrow> []
           | Some i \<Rightarrow> if g = group (store s ! i) then [i] else []))"
proof -
  obtain s where s: "run init cs = Inr s" using run_total by blast
  with consistent_init have c: "consistent s" by (rule consistent_run)
  then have "distinct (get_registered_groups s)"
    by (simp add: consistent_iff get_registered_groups_def)
  with s c show ?thesis by (auto simp: consistent_entries)
qed

theorem one_group_per_operation_witness:
  "run init [AddTool 1 ''a'' None None, AddTool 2 ''a'' None None, SetGroup 1 ''b'',
             AddTool 2 ''b'' None None, SetGroup 1 ''a''] =
     Inr \<lparr>store = [\<lparr>func = 1, args = [], kwargs = [], group = ''a''\<rparr>,
                  \<lparr>func = 2, args = [], kwargs = [], group = ''a''\<rparr>,
                  \<lparr>func = 2, args = [], kwargs = [], group = ''b''\<rparr>],
          tools = [(1, 0), (2, 2)], groups = [(''a'', [0]), (''b'', [2])], enabled = {}\<rparr>"
  using one_group_per_operation [of "[AddTool 1 ''a'' None None, AddTool 2 ''a'' None None,
     SetGroup 1 ''b'', AddTool 2 ''b'' None None, SetGroup 1 ''a'']"]
  by (simp add: init_def add_tool_eq set_group_eq without_def setdefault_append_def get_default_def)

subsection \<open>Activation as a sequence of host calls\<close>

lemma register_loop_eq:
  "register_loop reg en rs h =
     call_seq reg (map (\<lambda>r. (func r, args r, kwargs r)) (filter (\<lambda>r. group r \<in> en) rs)) h"
  by (induction rs arbitrary: h) (auto split: prod.splits option.splits)

lemma register_enabled_eq: "register_enabled reg s h = call_seq reg (selected_calls s) h"
  by (simp add: register_enabled_def selected_calls_def register_loop_eq)

lemma register_loop_append:
  "register_loop reg en (xs @ ys) h =
     (case register_loop reg en xs h of
        (h', None) \<Rightarrow> register_loop reg en ys h'
      | (h', Some e) \<Rightarrow> (h', Some e))"
  by (induction xs arbitrary: h) (auto split: prod.splits option.splits)

lemma call_seq_no_raise:
  assumes "\<And>h c. snd (reg h c) = None"
  shows "call_seq reg cs h = (fold (\<lambda>c h. fst (reg h c)) cs h, None)"
proof (induction cs arbitrary: h)
  case Nil
  show ?case by simp
next
  case (Cons c cs)
  from assms[of h c] obtain h' where "reg h c = (h', None)" by (cases "reg h c") auto
  with Cons.IH[of h'] show ?case by simp
qed

lemma consistent_tools:
  assumes "consistent s" and "(f, i) \<in> set (tools s)"
  shows "func (store s ! i) = f" and "record_of s f = Some (store s ! i)"
proof -
  from assms have d: "distinct (map fst (tools s))" by (simp add: consistent_iff)
  with assms(2) have m: "map_of (tools s) f = Some i" by simp
  with assms(1) show "func (store s ! i) = f" by (simp add: consistent_iff)
  from m show "record_of s f = Some (store s ! i)" by (simp add: record_of_def)
qed

lemma selected_funcs:
  assumes c: "consistent s"
  shows "map fst (selected_calls s) = filter (selected s) (map fst (tools s))"
proof -
  have "map fst (map (\<lambda>r. (func r, args r, kwargs r))
            (filter (\<lambda>r. group r \<in> en) (map (\<lambda>(f, i). store s ! i) ts))) =
        filter (selected s) (map fst ts)"
    if "set ts \<subseteq> set (tools s)" and "en = enabled s" for ts en
    using that
  proof (induction ts)
    case Nil
    show ?case by simp
  next
    case (Cons p ts)
    obtain f i where p: "p = (f, i)" by (cases p)
    with Cons.prems have "(f, i) \<in> set (tools s)" by simp
    from consistent_tools[OF c this] have "func (store s ! i) = f"
      and "selected s f \<longleftrightarrow> group (store s ! i) \<in> enabled s"
      by (simp_all add: selected_def)
    with Cons p show ?case by simp
  qed
  then show ?thesis by (simp add: selected_calls_def tools_values_def)
qed

lemma selected_calls_set:
  assumes c: "consistent s"
  shows "c' \<in> set (selected_calls s) \<longleftrightarrow>
     (\<exists>r. record_of s (fst c') = Some r \<and> group r \<in> enabled s \<and> c' = (func r, args r, kwargs r))"
proof
  assume "c' \<in> set (selected_calls s)"
  then obtain f i where fi: "(f, i) \<in> set (tools s)" and en: "group (store s ! i) \<in> enabled s"
    and c': "c' = (func (store s ! i), args (store s ! i), kwargs (store s ! i))"
    by (auto simp: selected_calls_def tools_values_def)
  from consistent_tools[OF c fi] c' en
  show "\<exists>r. record_of s (fst c') = Some r \<and> group r \<in> enabled s \<and> c' = (func r, args r, kwargs r)"
    by simp
next
  assume "\<exists>r. record_of s (fst c') = Some r \<and> group r \<in> enabled s \<and> c' = (func r, args r, kwargs r)"
  then obtain r where r: "record_of s (fst c') = Some r" "group r \<in> enabled s"
    "c' = (func r, args r, kwargs r)" by blast
  from r(1) obtain i where i: "map_of (tools s) (fst c') = Some i" "r = store s ! i"
    by (auto simp: record_of_def)
  then have "(fst c', i) \<in> set (tools s)" by (auto dest: map_of_SomeD)
  with r i show "c' \<in> set (selected_calls s)"
    by (force simp: selected_calls_def tools_values_def)
qed

lemma enabled_add_tool: "add_tool s f g a kw = Inr s' \<Longrightarrow> enabled s' = enabled s"
  by (auto simp: add_tool_eq)

lemma enabled_set_group: "set_group s f g = Inr s' \<Longrightarrow> enabled s' = enabled s"
  by (auto simp: set_group_eq add_tool_eq split: option.splits if_splits)

lemma record_of_add_tool:
  assumes "add_tool s f g a kw = Inr s'"
  shows "record_of s' f = Some \<lparr>func = f, args = (case a of None \<Rightarrow> [] | Some x \<Rightarrow> x),
            kwargs = (case kw of None \<Rightarrow> [] | Some x \<Rightarrow> x), group = g\<rparr>"
  using assms by (auto simp: add_tool_eq record_of_def AList.update_conv')

lemma group_after_set_group:
  assumes v: "valid_refs s" and r: "set_group s f g = Inr s'"
  shows "map_option group (record_of s' f) = Some g"
proof (cases "map_of (tools s) f")
  case None
  with r have "add_tool s f g None None = Inr s'" by (simp add: set_group_def)
  from record_of_add_tool[OF this] show ?thesis by simp
next
  case (Some i)
  then have "(f, i) \<in> set (tools s)" by (rule map_of_SomeD)
  with v have "i < length (store s)" by (auto simp: valid_refs_def list_all_iff)
  with Some r show ?thesis
    by (auto simp: set_group_eq record_of_def split: if_splits)
qed

lemma consistent_valid_refs: "consistent s \<Longrightarrow> valid_refs s"
  unfolding consistent_def valid_refs_def list_all_iff by fastforce

subsection \<open>C1: activation registers the records whose current group is enabled\<close>

text \<open>
  C1. Activation hands to the host, in the order of the tool map and until a call raises,
  the calls \<open>(func, args, kwargs)\<close> of the records whose \<^verbatim>\<open>group\<close> field is enabled when it
  runs; with a host that does not raise all of them are made. In a consistent registry the
  callables of these calls are distinct (every record is considered once), a call is made
  exactly when it carries the callable and the stored, unmodified parameters of a record whose
  current group is enabled, and after \<^verbatim>\<open>set_group\<close> or \<^verbatim>\<open>add_tool\<close> has given a callable the group \<open>g\<close>
  it is selected exactly when \<open>g\<close> is enabled, whatever its group was before.
\<close>

theorem register_enabled_selects_current_group:
  "register_enabled reg s h = call_seq reg (selected_calls s) h \<and>
   ((\<forall>h c. snd (reg h c) = None) \<longrightarrow>
      register_enabled reg s h = (fold (\<lambda>c h. fst (reg h c)) (selected_calls s) h, None)) \<and>
   (consistent s \<longrightarrow>
      map fst (selected_calls s) = filter (selected s) (map fst (tools s)) \<and>
      distinct (map fst (selected_calls s)) \<and>
      (\<forall>c. c \<in> set (selected_calls s) \<longleftrightarrow>
         (\<exists>r. record_of s (fst c) = Some r \<and> group r \<in> enabled s \<and>
              c = (func r, args r, kwargs r))) \<and>
      (\<forall>f g s'. set_group s f g = Inr s' \<longrightarrow> (selected s' f \<longleftrightarrow> g \<in> enabled s)) \<and>
      (\<forall>f g a kw s'. add_tool s f g a kw = Inr s' \<longrightarrow> (selected s' f \<longleftrightarrow> g \<in> enabled s)))"
proof (intro conjI impI allI)
  show "register_enabled reg s h = call_seq reg (selected_calls s) h"
    by (rule register_enabled_eq)
next
  assume "\<forall>h c. snd (reg h c) = None"
  then have "\<And>h c. snd (reg h c) = None" by blast
  then have "call_seq reg (selected_calls s) h =
      (fold (\<lambda>c h. fst (reg h c)) (selected_calls s) h, None)"
    by (rule call_seq_no_raise)
  then show "register_enabled reg s h = (fold (\<lambda>c h. fst (reg h c)) (selected_calls s) h, None)"
    by (simp only: register_enabled_eq)
next
  assume c: "consistent s"
  show eq: "map fst (selected_calls s) = filter (selected s) (map fst (tools s))"
    using c by (rule selected_funcs)
  from c have "distinct (map fst (tools s))" by (simp add: consistent_iff)
  then show "distinct (map fst (selected_calls s))" by (simp add: eq)
next
  fix c assume "consistent s"
  then show "c \<in> set (selected_calls s) \<longleftrightarrow>
         (\<exists>r. record_of s (fst c) = Some r \<and> group r \<in> enabled s \<and>
              c = (func r, args r, kwargs r))"
    by (rule selected_calls_set)
next
  fix f g s' assume c: "consistent s" and r: "set_group s f g = Inr s'"
  from c have "valid_refs s" by (rule consistent_valid_refs)
  from group_after_set_group[OF this r] obtain r' where "record_of s' f = Some r'" "group r' = g"
    by (cases "record_of s' f") simp_all
  with enabled_set_group[OF r] show "selected s' f \<longleftrightarrow> g \<in> enabled s"
    by (simp add: selected_def)
next
  fix f g a kw s' assume r: "add_tool s f g a kw = Inr s'"
  from record_of_add_tool[OF r] enabled_add_tool[OF r]
  show "selected s' f \<longleftrightarrow> g \<in> enabled s"
    by (simp add: selected_def)
qed

lemma consistent_ex_registry: "consistent ex_registry"
  by (simp add: consistent_def ex_registry_def get_default_def)

lemma set_group_ex_registry: "set_group ex_registry 1 ''default'' = Inr ex_moved"
  by (simp add: ex_registry_def ex_moved_def set_group_eq without_def setdefault_append_def
      get_default_def)

lemma selected_calls_ex_registry:
  "selected_calls ex_registry = [(1, [PyStr ''a''], []), (3, [], [])]"
  by (simp add: selected_calls_def tools_values_def ex_registry_def)

theorem register_enabled_selects_current_group_witness:
  "consistent ex_registry \<and>
   register_enabled log_host ex_registry [] = ([(1, [PyStr ''a''], []), (3, [], [])], None) \<and>
   map fst (selected_calls ex_registry) = [1, 3] \<and>
   set_group ex_registry 1 ''default'' = Inr ex_moved \<and>
   \<not> selected ex_moved 1"
proof -
  note T = register_enabled_selects_current_group [of log_host ex_registry "[]"]
  have c: "consistent ex_registry" by (rule consistent_ex_registry)
  have n: "\<forall>h c. snd (log_host h c) = None" by (simp add: log_host_def)
  from n have "register_enabled log_host ex_registry [] =
      (fold (\<lambda>c h. fst (log_host h c)) (selected_calls ex_registry) [], None)"
    by (rule T[THEN conjunct2, THEN conjunct1, THEN mp])
  then have r: "register_enabled log_host ex_registry [] =
      ([(1, [PyStr ''a''], []), (3, [], [])], None)"
    by (simp add: selected_calls_ex_registry log_host_def)
  note U = T[THEN conjunct2, THEN conjunct2, THEN mp, OF c]
  note V = U[THEN conjunct2, THEN conjunct2, THEN conjunct2, THEN conjunct1, rule_format]
  from set_group_ex_registry have "selected ex_moved 1 \<longleftrightarrow> ''default'' \<in> enabled ex_registry"
    by (rule V)
  then have m: "\<not> selected ex_moved 1" by (simp add: ex_registry_def)
  from c r m set_group_ex_registry show ?thesis
    by (simp add: selected_calls_ex_registry)
qed

subsection \<open>C5: a raising host aborts the activation\<close>

text \<open>
  C5. Let the host raise \<open>e\<close> at the record \<open>info\<close> of the iteration, after the loop over the
  earlier records \<open>pre\<close> has run to its end without an exception and left the host in \<open>h1\<close>.
  Then activation returns the exception \<open>e\<close> itself, and the host is in the state \<open>h2\<close> in which
  the raising call left \<open>h1\<close>: the earlier registrations are kept, and nothing of the later
  records \<open>post\<close> reaches the host, whatever they are.
\<close>

theorem register_enabled_aborts_on_raise:
  assumes "tools_values s = pre @ info # post"
    and "register_loop reg (enabled s) pre h = (h1, None)"
    and "group info \<in> enabled s"
    and "reg h1 (func info, args info, kwargs info) = (h2, Some e)"
  shows "register_enabled reg s h = (h2, Some e) \<and>
         register_enabled reg s h = register_loop reg (enabled s) (pre @ [info]) h"
  using assms by (simp add: register_enabled_def register_loop_append)

theorem register_enabled_aborts_on_raise_witness:
  "tools_values (ex_registry\<lparr>enabled := {''rds'', ''default'', ''custom''}\<rparr>) =
     [\<lparr>func = 1, args = [PyStr ''a''], kwargs = [], group = ''rds''\<rparr>] @
     \<lparr>func = 2, args = [], kwargs = [(''name'', PyStr ''b'')], group = ''default''\<rparr> #
     [\<lparr>func = 3, args = [], kwargs = [], group = ''custom''\<rparr>] \<and>
   register_loop (raising_host [2] ''boom'') {''rds'', ''default'', ''custom''}
     [\<lparr>func = 1, args = [PyStr ''a''], kwargs = [], group = ''rds''\<rparr>] [] =
     ([(1, [PyStr ''a''], [])], None) \<and>
   raising_host [2] ''boom'' [(1, [PyStr ''a''], [])] (2, [], [(''name'', PyStr ''b'')]) =
     ([(1, [PyStr ''a''], [])], Some ''boom'') \<and>
   register_enabled (raising_host [2] ''boom'')
     (ex_registry\<lparr>enabled := {''rds'', ''default'', ''custom''}\<rparr>) [] =
     ([(1, [PyStr ''a''], [])], Some ''boom'')"
proof -
  let ?s = "ex_registry\<lparr>enabled := {''rds'', ''default'', ''custom''}\<rparr>"
  let ?pre = "[\<lparr>func = 1, args = [PyStr ''a''], kwargs = [], group = ''rds''\<rparr>]"
  let ?info = "\<lparr>func = 2, args = [], kwargs = [(''name'', PyStr ''b'')], group = ''default''\<rparr>"
  let ?post = "[\<lparr>func = 3, args = [], kwargs = [], group = ''custom''\<rparr>]"
  have a: "tools_values ?s = ?pre @ ?info # ?post"
    by (simp add: tools_values_def ex_registry_def)
  have b: "register_loop (raising_host [2] ''boom'') (enabled ?s) ?pre [] =
      ([(1, [PyStr ''a''], [])], None)"
    by (simp add: raising_host_def)
  have c: "group ?info \<in> enabled ?s" by simp
  have d: "raising_host [2] ''boom'' [(1, [PyStr ''a''], [])] (func ?info, args ?info, kwargs ?info) =
      ([(1, [PyStr ''a''], [])], Some ''boom'')"
    by (simp add: raising_host_def)
  from register_enabled_aborts_on_raise [OF a b c d] a b d show ?thesis by simp
qed

subsection \<open>C9: unknown group names\<close>

lemma tools_values_enable: "tools_values (enable s gs) = tools_values s"
  by (simp add: tools_values_def enable_fields)

lemma register_loop_unused_group:
  assumes "\<And>r. r \<in> set rs \<Longrightarrow> group r \<noteq> g"
  shows "register_loop reg (insert g en) rs h = register_loop reg en rs h"
  using assms
  by (induction rs arbitrary: h) (auto split: prod.splits option.splits)

text \<open>
  C9. No group name has to be known. \<^verbatim>\<open>add_tool\<close> and \<^verbatim>\<open>set_group\<close> return for every group
  name and every registry (the guarded dict accesses never raise \<^verbatim>\<open>KeyError\<close>); \<^verbatim>\<open>enable\<close> adds
  any names to the set and touches nothing else; for an enabled name whose list is missing
  or empty \<^verbatim>\<open>get_enabled_tools\<close> gives the empty list; and enabling a name that no record
  carries does not change what activation does.
\<close>

theorem unknown_group_is_no_error:
  "(\<exists>s'. add_tool s f g a kw = Inr s') \<and>
   (\<exists>s'. set_group s f g = Inr s') \<and>
   enabled (enable s gs) = enabled s \<union> set gs \<and>
   store (enable s gs) = store s \<and> tools (enable s gs) = tools s \<and>
   groups (enable s gs) = groups s \<and>
   (get_default (groups s) g [] = [] \<longrightarrow> get_enabled_tools (enable s [g]) g = Some []) \<and>
   ((\<forall>r \<in> set (tools_values s). group r \<noteq> g) \<longrightarrow>
      register_enabled reg (enable s [g]) h = register_enabled reg s h)"
proof (intro conjI impI)
  show "\<exists>s'. add_tool s f g a kw = Inr s'" by (rule add_tool_total)
  show "\<exists>s'. set_group s f g = Inr s'" by (rule set_group_total)
  show "enabled (enable s gs) = enabled s \<union> set gs" "store (enable s gs) = store s"
    "tools (enable s gs) = tools s" "groups (enable s gs) = groups s"
    by (rule enable_fields)+
next
  assume "get_default (groups s) g [] = []"
  then show "get_enabled_tools (enable s [g]) g = Some []"
    by (simp add: get_enabled_tools_def enable_fields)
next
  assume "\<forall>r \<in> set (tools_values s). group r \<noteq> g"
  then have "register_loop reg (insert g (enabled s)) (tools_values s) h =
      register_loop reg (enabled s) (tools_values s) h"
    by (intro register_loop_unused_group) blast
  then show "register_enabled reg (enable s [g]) h = register_enabled reg s h"
    by (simp add: register_enabled_def tools_values_enable enable_fields)
qed

theorem unknown_group_is_no_error_witness:
  "get_default (groups ex_registry) ''nowhere'' [] = [] \<and>
   get_enabled_tools (enable ex_registry [''nowhere'']) ''nowhere'' = Some [] \<and>
   register_enabled log_host (enable ex_registry [''nowhere'']) [] =
     ([(1, [PyStr ''a''], []), (3, [], [])], None)"
proof -
  note T = unknown_group_is_no_error [of ex_registry 0 "''nowhere''" None None "[]" log_host "[]"]
  have a: "get_default (groups ex_registry) ''nowhere'' [] = []"
    by (simp add: ex_registry_def get_default_def)
  have b: "\<forall>r \<in> set (tools_values ex_registry). group r \<noteq> ''nowhere''"
    by (simp add: tools_values_def ex_registry_def)
  have c: "register_enabled log_host ex_registry [] = ([(1, [PyStr ''a''], []), (3, [], [])], None)"
    by (simp add: register_enabled_def tools_values_def ex_registry_def log_host_def)
  from T a have d: "get_enabled_tools (enable ex_registry [''nowhere'']) ''nowhere'' = Some []"
    by (elim conjE) (erule (1) mp)
  from T b have "register_enabled log_host (enable ex_registry [''nowhere'']) [] =
      register_enabled log_host ex_registry []"
    by (elim conjE) (erule (1) mp)
  with a c d show ?thesis by simp
qed

subsection \<open>C10: the order of activation\<close>

lemma keys_add_tool:
  assumes "add_tool s f g a kw = Inr s'"
  shows "map fst (tools s') =
     (if f \<in> set (map fst (tools s)) then map fst (tools s) else map fst (tools s) @ [f])"
proof -
  from assms have "tools s' = AList.update f (length (store s)) (tools s)"
    by (auto simp: add_tool_eq)
  then show ?thesis by (simp only: AList.update_keys)
qed






lemma handle_after_add_tool:
  assumes "add_tool s f g a kw = Inr s'"
  shows "map_of (tools s') f = Some (length (store s))"
  using assms by (auto simp: add_tool_eq AList.update_conv')




subsection \<open>C7: set_group for a callable without a record\<close>

text \<open>
  C7. For a callable without a record \<^verbatim>\<open>set_group\<close> is the call of \<^verbatim>\<open>add_tool\<close> with that group
  and no \<^verbatim>\<open>args\<close> and \<^verbatim>\<open>kwargs\<close>: it returns, with the same registry, in which the callable has a
  new record with the empty tuple and the empty dict.
\<close>

theorem set_group_unregistered_is_add_tool:
  assumes "map_of (tools s) f = None"
  shows "set_group s f g = add_tool s f g None None \<and>
         (\<exists>s'. set_group s f g = Inr s' \<and>
               record_of s' f = Some \<lparr>func = f, args = [], kwargs = [], group = g\<rparr>)"
proof -
  from assms have e: "set_group s f g = add_tool s f g None None"
    by (simp add: set_group_def)
  obtain s' where s': "add_tool s f g None None = Inr s'" using add_tool_total by blast
  from record_of_add_tool[OF s'] e s' show ?thesis by simp
qed

theorem set_group_unregistered_is_add_tool_witness:
  "map_of (tools ex_registry) 7 = None \<and>
   set_group ex_registry 7 ''rds'' = add_tool ex_registry 7 ''rds'' None None \<and>
   set_group ex_registry 7 ''rds'' =
     Inr (ex_registry\<lparr>store := store ex_registry @ [\<lparr>func = 7, args = [], kwargs = [], group = ''rds''\<rparr>],
                      tools := [(1, 0), (2, 1), (3, 2), (7, 3)],
                      groups := [(''default'', [1]), (''rds'', [0, 3]), (''custom'', [2])]\<rparr>)"
proof -
  have a: "map_of (tools ex_registry) 7 = None" by (simp add: ex_registry_def)
  have b: "add_tool ex_registry 7 ''rds'' None None =
     Inr (ex_registry\<lparr>store := store ex_registry @ [\<lparr>func = 7, args = [], kwargs = [], group = ''rds''\<rparr>],
                      tools := [(1, 0), (2, 1), (3, 2), (7, 3)],
                      groups := [(''default'', [1]), (''rds'', [0, 3]), (''custom'', [2])]\<rparr>)"
    by (simp add: add_tool_eq ex_registry_def setdefault_append_def get_default_def)
  from set_group_unregistered_is_add_tool [OF a, of "''rds''"] a b show ?thesis by simp
qed

subsection \<open>C8: set_group is idempotent\<close>

lemma valid_refs_lookup:
  assumes "valid_refs s" and "map_of (tools s) f = Some i"
  shows "i < length (store s)"
proof -
  from assms(2) have "(f, i) \<in> set (tools s)" by (rule map_of_SomeD)
  with assms(1) show ?thesis by (auto simp: valid_refs_def list_all_iff)
qed

text \<open>
  C8. In a registry whose references are all live, \<^verbatim>\<open>set_group\<close> with a callable and a group
  returns a registry on which the same call returns that same registry, lists and their
  order included; and when the callable's record already carries the group, the first call
  returns the registry it was given.
\<close>

theorem set_group_idempotent:
  assumes "valid_refs s"
  shows "\<exists>s1. set_group s f g = Inr s1 \<and> set_group s1 f g = Inr s1 \<and>
              (\<forall>i. map_of (tools s) f = Some i \<and> group (store s ! i) = g \<longrightarrow> s1 = s)"
proof (cases "map_of (tools s) f")
  case None
  obtain s1 where s1: "add_tool s f g None None = Inr s1" using add_tool_total by blast
  then have "map_of (tools s1) f = Some (length (store s))"
    and "store s1 ! length (store s) = \<lparr>func = f, args = [], kwargs = [], group = g\<rparr>"
    by (auto simp: add_tool_eq AList.update_conv')
  then have "set_group s1 f g = Inr s1" by (simp add: set_group_def)
  with None s1 show ?thesis by (simp add: set_group_def)
next
  case (Some i)
  with assms have lt: "i < length (store s)" by (rule valid_refs_lookup)
  show ?thesis
  proof (cases "group (store s ! i) = g")
    case True
    with Some have "set_group s f g = Inr s" by (simp add: set_group_def)
    then show ?thesis by simp
  next
    case False
    define s1 where "s1 = s\<lparr>store := (store s)[i := (store s ! i)\<lparr>group := g\<rparr>],
        groups := setdefault_append (without (store s) (groups s) (group (store s ! i)) f) g i\<rparr>"
    from Some False have a: "set_group s f g = Inr s1" by (simp add: set_group_eq s1_def)
    from Some lt have "map_of (tools s1) f = Some i" and "group (store s1 ! i) = g"
      by (simp_all add: s1_def)
    then have "set_group s1 f g = Inr s1" by (simp add: set_group_def)
    with a Some False show ?thesis by simp
  qed
qed

theorem set_group_idempotent_witness:
  "valid_refs ex_registry \<and> set_group ex_registry 1 ''default'' = Inr ex_moved \<and>
   set_group ex_moved 1 ''default'' = Inr ex_moved"
proof -
  have v: "valid_refs ex_registry" by (simp add: valid_refs_def ex_registry_def)
  from set_group_idempotent [OF v, of 1 "''default''"] set_group_ex_registry v
  show ?thesis by auto
qed

subsection \<open>C3: adding a callable again\<close>

text \<open>
  C3, as stated, fails: adding the first tool of the example again stores a new object
  (address 3) under the callable, while the object that was stored for it (address 0) stays
  as it was, with its old group, and is no longer the record of the callable.
\<close>

theorem add_tool_reuses_record_counterexample:
  "consistent ex_registry \<and> map_of (tools ex_registry) 1 = Some 0 \<and>
   add_tool ex_registry 1 ''custom'' None None = Inr ex_readded \<and>
   map_of (tools ex_readded) 1 = Some 3 \<and>
   store ex_readded ! 0 = \<lparr>func = 1, args = [PyStr ''a''], kwargs = [], group = ''rds''\<rparr> \<and>
   record_of ex_readded 1 = Some \<lparr>func = 1, args = [], kwargs = [], group = ''custom''\<rparr>"
proof -
  have "add_tool ex_registry 1 ''custom'' None None = Inr ex_readded"
    by (simp add: add_tool_eq ex_registry_def ex_readded_def without_def setdefault_append_def
        get_default_def)
  moreover have "map_of (tools ex_registry) 1 = Some 0" by (simp add: ex_registry_def)
  moreover have "map_of (tools ex_readded) 1 = Some 3"
    "store ex_readded ! 0 = \<lparr>func = 1, args = [PyStr ''a''], kwargs = [], group = ''rds''\<rparr>"
    "record_of ex_readded 1 = Some \<lparr>func = 1, args = [], kwargs = [], group = ''custom''\<rparr>"
    by (simp_all add: ex_readded_def record_of_def)
  ultimately show ?thesis using consistent_ex_registry by simp
qed

text \<open>
  C3, amended. When \<^verbatim>\<open>add_tool\<close> is called for a callable that has a record in a consistent
  registry, no duplicate is created: the registry stays consistent, the keys of the tool map
  and their order are unchanged, and the callable has exactly one entry, in the list of the
  group of the call. Its record is a newly constructed object with the fields of the call,
  stored under the callable in place of the previous object; the previous object is
  unchanged and occurs in no list any more.
\<close>

theorem add_tool_replaces_record:
  assumes c: "consistent s" and m: "map_of (tools s) f = Some i"
    and r: "add_tool s f g a kw = Inr s'"
  shows "consistent s' \<and> map fst (tools s') = map fst (tools s) \<and>
         i < length (store s) \<and> map_of (tools s') f = Some (length (store s)) \<and>
         store s' ! length (store s) =
           \<lparr>func = f, args = (case a of None \<Rightarrow> [] | Some x \<Rightarrow> x),
            kwargs = (case kw of None \<Rightarrow> [] | Some x \<Rightarrow> x), group = g\<rparr> \<and>
         store s' ! i = store s ! i \<and>
         (\<forall>g'. i \<notin> set (get_default (groups s') g' [])) \<and>
         (\<forall>g'. entries s' g' f = (if g' = g then [length (store s)] else []))"
proof -
  from c r have c': "consistent s'" by (rule consistent_add_tool)
  from m have "f \<in> set (map fst (tools s))"
    by (metis map_of_eq_None_iff option.distinct(1) set_map)
  with keys_add_tool[OF r] have k: "map fst (tools s') = map fst (tools s)" by simp
  from c m have lt: "i < length (store s)" by (simp add: consistent_iff)
  from r have h: "map_of (tools s') f = Some (length (store s))" by (rule handle_after_add_tool)
  from r have new: "store s' ! length (store s) =
           \<lparr>func = f, args = (case a of None \<Rightarrow> [] | Some x \<Rightarrow> x),
            kwargs = (case kw of None \<Rightarrow> [] | Some x \<Rightarrow> x), group = g\<rparr>"
    by (auto simp: add_tool_eq)
  from r lt have old: "store s' ! i = store s ! i" by (auto simp: add_tool_eq nth_append)
  from c m have fi: "func (store s ! i) = f" by (simp add: consistent_iff)
  have gone: "i \<notin> set (get_default (groups s') g' [])" for g'
  proof
    assume a: "i \<in> set (get_default (groups s') g' [])"
    then obtain ms where "map_of (groups s') g' = Some ms" "i \<in> set ms"
      by (cases "map_of (groups s') g'") (auto simp: get_default_def)
    with c' have "map_of (tools s') (func (store s' ! i)) = Some i"
      unfolding consistent_iff by blast
    with old fi h lt show False by simp
  qed
  have "entries s' g' f = (if g' = g then [length (store s)] else [])" for g'
    using consistent_entries[OF c', of g' f] h new by simp
  with c' k lt h new old gone show ?thesis by blast
qed

theorem add_tool_replaces_record_witness:
  "consistent ex_registry \<and> map_of (tools ex_registry) 1 = Some 0 \<and>
   add_tool ex_registry 1 ''custom'' None None = Inr ex_readded \<and>
   map fst (tools ex_readded) = map fst (tools ex_registry) \<and>
   entries ex_readded ''custom'' 1 = [3] \<and> entries ex_readded ''rds'' 1 = []"
proof -
  have a: "add_tool ex_registry 1 ''custom'' None None = Inr ex_readded"
    by (simp add: add_tool_eq ex_registry_def ex_readded_def without_def setdefault_append_def
        get_default_def)
  have m: "map_of (tools ex_registry) 1 = Some 0" by (simp add: ex_registry_def)
  have l: "length (store ex_registry) = 3" by (simp add: ex_registry_def)
  note T = add_tool_replaces_record [OF consistent_ex_registry m a]
  from T have k: "map fst (tools ex_readded) = map fst (tools ex_registry)" by blast
  from T have "\<forall>g'. entries ex_readded g' 1 =
      (if g' = ''custom'' then [length (store ex_registry)] else [])" by blast
  then have "entries ex_readded ''custom'' 1 = [3]" "entries ex_readded ''rds'' 1 = []"
    by (simp_all add: l)
  with consistent_ex_registry m a k show ?thesis by simp
qed

subsection \<open>C4: the stored registration parameters\<close>

text \<open>
  C4, as stated, fails: the first tool of the example was added with the argument \<open>a\<close>;
  adding it again with the argument \<open>z\<close> leaves \<open>z\<close> stored for it.
\<close>

theorem params_set_once_counterexample:
  "stored_params ex_registry 1 = Some ([PyStr ''a''], []) \<and>
   add_tool ex_registry 1 ''rds'' (Some [PyStr ''z'']) None = Inr ex_reparam \<and>
   stored_params ex_reparam 1 = Some ([PyStr ''z''], [])"
proof -
  have "add_tool ex_registry 1 ''rds'' (Some [PyStr ''z'']) None = Inr ex_reparam"
    by (simp add: add_tool_eq ex_registry_def ex_reparam_def without_def setdefault_append_def
        get_default_def)
  moreover have "stored_params ex_registry 1 = Some ([PyStr ''a''], [])"
    by (simp add: stored_params_def record_of_def ex_registry_def)
  moreover have "stored_params ex_reparam 1 = Some ([PyStr ''z''], [])"
    by (simp add: stored_params_def record_of_def ex_reparam_def)
  ultimately show ?thesis by simp
qed

lemma stored_params_add_tool:
  assumes v: "valid_refs s" and r: "add_tool s f g a kw = Inr s'"
  shows "stored_params s' f' =
     (if f' = f then Some (case a of None \<Rightarrow> [] | Some x \<Rightarrow> x, case kw of None \<Rightarrow> [] | Some x \<Rightarrow> x)
      else stored_params s f')"
proof (cases "f' = f")
  case True
  with record_of_add_tool[OF r] show ?thesis by (simp add: stored_params_def)
next
  case False
  from r have t: "map_of (tools s') f' = map_of (tools s) f'"
    and st: "store s' = store s @ [\<lparr>func = f, args = (case a of None \<Rightarrow> [] | Some x \<Rightarrow> x),
            kwargs = (case kw of None \<Rightarrow> [] | Some x \<Rightarrow> x), group = g\<rparr>]"
    using False by (auto simp: add_tool_eq AList.update_conv')
  show ?thesis
  proof (cases "map_of (tools s) f'")
    case None
    with t False show ?thesis by (simp add: stored_params_def record_of_def)
  next
    case (Some j)
    with v have "j < length (store s)" by (rule valid_refs_lookup)
    with Some t st False show ?thesis
      by (simp add: stored_params_def record_of_def nth_append)
  qed
qed

lemma stored_params_set_group:
  assumes v: "valid_refs s" and r: "set_group s f g = Inr s'"
  shows "stored_params s' f' =
     (if f' = f \<and> map_of (tools s) f = None then Some ([], []) else stored_params s f')"
proof (cases "map_of (tools s) f")
  case None
  with r have "add_tool s f g None None = Inr s'" by (simp add: set_group_def)
  from stored_params_add_tool[OF v this, of f'] None show ?thesis by simp
next
  case (Some i)
  show ?thesis
  proof (cases "group (store s ! i) = g")
    case True
    with Some r show ?thesis by (simp add: set_group_def)
  next
    case False
    with Some r have t: "tools s' = tools s"
      and st: "store s' = (store s)[i := (store s ! i)\<lparr>group := g\<rparr>]"
      by (auto simp: set_group_eq)
    have "args (store s' ! j) = args (store s ! j) \<and> kwargs (store s' ! j) = kwargs (store s ! j)"
      for j
      using valid_refs_lookup[OF v Some] by (cases "j = i") (simp_all add: st)
    with t Some show ?thesis
      by (cases "map_of (tools s) f'") (simp_all add: stored_params_def record_of_def)
  qed
qed

text \<open>
  C4, amended. In a registry whose references are all live: \<^verbatim>\<open>add_tool\<close> stores for its
  callable the \<^verbatim>\<open>args\<close> and \<^verbatim>\<open>kwargs\<close> of the call (empty when omitted), whether or not the
  callable had a record, and leaves those of every other callable as they are;
  \<^verbatim>\<open>set_group\<close> leaves those of every callable that has a record as they are and gives a
  callable without a record the empty ones.
\<close>

theorem params_follow_last_add_tool:
  assumes "valid_refs s"
  shows "(add_tool s f g a kw = Inr s1 \<longrightarrow>
            stored_params s1 f' =
              (if f' = f
               then Some (case a of None \<Rightarrow> [] | Some x \<Rightarrow> x, case kw of None \<Rightarrow> [] | Some x \<Rightarrow> x)
               else stored_params s f')) \<and>
         (set_group s f g = Inr s2 \<longrightarrow>
            stored_params s2 f' =
              (if f' = f \<and> map_of (tools s) f = None then Some ([], [])
               else stored_params s f'))"
  using assms stored_params_add_tool stored_params_set_group by blast

theorem params_follow_last_add_tool_witness:
  "valid_refs ex_registry \<and>
   add_tool ex_registry 1 ''rds'' (Some [PyStr ''z'']) None = Inr ex_reparam \<and>
   stored_params ex_reparam 1 = Some ([PyStr ''z''], []) \<and>
   set_group ex_registry 1 ''default'' = Inr ex_moved \<and>
   stored_params ex_moved 1 = Some ([PyStr ''a''], [])"
proof -
  have v: "valid_refs ex_registry" by (simp add: valid_refs_def ex_registry_def)
  have a: "add_tool ex_registry 1 ''rds'' (Some [PyStr ''z'']) None = Inr ex_reparam"
    by (simp add: add_tool_eq ex_registry_def ex_reparam_def without_def setdefault_append_def
        get_default_def)
  have p: "stored_params ex_registry 1 = Some ([PyStr ''a''], [])"
    by (simp add: stored_params_def record_of_def ex_registry_def)
  have m: "map_of (tools ex_registry) 1 = Some 0" by (simp add: ex_registry_def)
  note T = params_follow_last_add_tool [OF v, of 1 "''rds''" "Some [PyStr ''z'']" None ex_reparam 1]
  note U = params_follow_last_add_tool [OF v, of 1 "''default''" None None _ 1 ex_moved]
  from T a have x: "stored_params ex_reparam 1 = Some ([PyStr ''z''], [])" by simp
  from U set_group_ex_registry m p have y: "stored_params ex_moved 1 = Some ([PyStr ''a''], [])"
    by simp
  from v a x y set_group_ex_registry show ?thesis by simp
qed

subsection \<open>C6: the groups enabled at start-up\<close>

lemma split_not_Nil: "split sep s \<noteq> []"
  by (induction s) (auto split: list.splits)

lemma join_split: "join sep (split sep s) = s"
proof (induction s)
  case Nil
  show ?case by simp
next
  case (Cons c cs)
  show ?case
  proof (cases "c = sep")
    case True
    obtain t ts where "split sep cs = t # ts"
      using split_not_Nil[of sep cs] by (cases "split sep cs") auto
    with Cons True show ?thesis by simp
  next
    case False
    obtain t ts where ts: "split sep cs = t # ts"
      using split_not_Nil[of sep cs] by (cases "split sep cs") auto
    with Cons have "join sep (t # ts) = cs" by simp
    then have "join sep ((c # t) # ts) = c # cs" by (cases ts) auto
    with False ts show ?thesis by simp
  qed
qed

lemma split_no_sep: "t \<in> set (split sep s) \<Longrightarrow> sep \<notin> set t"
proof (induction s arbitrary: t)
  case Nil
  then show ?case by simp
next
  case (Cons c cs)
  obtain u us where us: "split sep cs = u # us"
    using split_not_Nil[of sep cs] by (cases "split sep cs") auto
  with Cons show ?case by (cases "c = sep") auto
qed

lemma rev_dropWhile_decomp: "x = rev (dropWhile P (rev x)) @ rev (takeWhile P (rev x))"
proof -
  have "x = rev (takeWhile P (rev x) @ dropWhile P (rev x))"
    by (simp only: takeWhile_dropWhile_id rev_rev_ident)
  also have "\<dots> = rev (dropWhile P (rev x)) @ rev (takeWhile P (rev x))"
    by (rule rev_append)
  finally show ?thesis .
qed

lemma strip_decomp: "\<exists>l r. s = l @ strip s @ r \<and> list_all isspace l \<and> list_all isspace r"
proof -
  define d where "d = dropWhile isspace s"
  have d: "d = strip s @ rev (takeWhile isspace (rev d))"
    unfolding strip_def d_def by (rule rev_dropWhile_decomp)
  have "s = takeWhile isspace s @ d" by (simp add: d_def)
  with d have "s = takeWhile isspace s @ strip s @ rev (takeWhile isspace (rev d))" by simp
  moreover have "list_all isspace (takeWhile isspace s)"
    by (auto simp: list_all_iff dest: set_takeWhileD)
  moreover have "list_all isspace (rev (takeWhile isspace (rev d)))"
    by (auto simp: list_all_iff dest: set_takeWhileD)
  ultimately show ?thesis by blast
qed

lemma strip_ends:
  assumes "strip s \<noteq> []"
  shows "\<not> isspace (hd (strip s))" and "\<not> isspace (last (strip s))"
proof -
  define d where "d = dropWhile isspace s"
  define e where "e = dropWhile isspace (rev d)"
  have st: "strip s = rev e" by (simp add: strip_def d_def e_def)
  with assms have e: "e \<noteq> []" by simp
  then have "\<not> isspace (hd e)" unfolding e_def by (rule hd_dropWhile)
  with e show "\<not> isspace (last (strip s))" by (simp add: st last_rev)
  have dd: "d = rev e @ rev (takeWhile isspace (rev d))"
    unfolding e_def by (rule rev_dropWhile_decomp)
  with e have "d \<noteq> []" by auto
  then have "\<not> isspace (hd d)" unfolding d_def by (rule hd_dropWhile)
  moreover from dd e have "hd d = hd (rev e)" by (metis hd_append2 rev_is_Nil_conv)
  ultimately show "\<not> isspace (hd (strip s))" by (simp add: st)
qed

lemma selected_groups_not_Nil: "selected_groups sel \<noteq> []"
  by (cases sel) (auto simp: selected_groups_def Let_def)

lemma filter_map_strip:
  "map strip (filter (\<lambda>g. strip g \<noteq> []) xs) = filter (\<lambda>t. t \<noteq> []) (map strip xs)"
  by (induction xs) auto

lemma selected_groups_tokens:
  assumes "t \<in> set (selected_groups (Single str))"
  shows "t \<noteq> [] \<and> CHR '','' \<notin> set t \<and> \<not> isspace (hd t) \<and> \<not> isspace (last t)"
proof (cases "map strip (filter (\<lambda>g. strip g \<noteq> []) (split (CHR '','') str)) = []")
  case True
  with assms have "t = ''default''" by (simp add: selected_groups_def)
  then show ?thesis by (simp add: isspace_def)
next
  case False
  with assms obtain g where g: "g \<in> set (split (CHR '','') str)" "strip g \<noteq> []" "t = strip g"
    by (auto simp: selected_groups_def Let_def)
  from strip_decomp[of g] obtain l r where "g = l @ strip g @ r" by blast
  then have "set (strip g) \<subseteq> set g" by (metis Un_upper1 Un_upper2 set_append subset_trans)
  with split_no_sep[OF g(1)] have "CHR '','' \<notin> set (strip g)" by blast
  with g strip_ends[OF g(2)] show ?thesis by simp
qed


lemma selected_groups_examples:
  "selected_groups (Single ''rds, custom'') = [''rds'', ''custom'']"
  "selected_groups (Single ''rds,,custom,'') = [''rds'', ''custom'']"
  by (simp_all add: selected_groups_def strip_def isspace_def)

text \<open>
  C6. The names that \<^verbatim>\<open>initialize_toolsets\<close> enables: \<^verbatim>\<open>["default"]\<close> without a selector; for a
  string, its comma-separated fields (which contain no comma and, joined by commas, give the
  string back), each stripped of the white space around it (what is left neither begins nor
  ends with white space), without the fields that are then empty, or \<^verbatim>\<open>["default"]\<close> when none
  is left; for a list, the list itself, or \<^verbatim>\<open>["default"]\<close> when it is empty. The selectors
  \<^verbatim>\<open>"rds, custom"\<close> and \<^verbatim>\<open>"rds,,custom,"\<close> both give \<^verbatim>\<open>rds\<close> and \<^verbatim>\<open>custom\<close>. When the group loader
  returns, the entry point adds exactly these names to the enabled set and then activates.
\<close>

theorem initialize_toolsets_selection:
  "selected_groups Absent = [''default''] \<and>
   selected_groups (Single str) =
     (let ts = filter (\<lambda>t. t \<noteq> []) (map strip (split (CHR '','') str))
      in if ts = [] then [''default''] else ts) \<and>
   join (CHR '','') (split (CHR '','') str) = str \<and>
   (\<forall>t \<in> set (split (CHR '','') str). CHR '','' \<notin> set t) \<and>
   (\<exists>l r. str = l @ strip str @ r \<and> list_all isspace l \<and> list_all isspace r) \<and>
   (\<forall>t \<in> set (selected_groups (Single str)).
      t \<noteq> [] \<and> CHR '','' \<notin> set t \<and> \<not> isspace (hd t) \<and> \<not> isspace (last t)) \<and>
   selected_groups (Single ''rds, custom'') = [''rds'', ''custom''] \<and>
   selected_groups (Single ''rds,,custom,'') = [''rds'', ''custom''] \<and>
   selected_groups (Listed l) = (if l = [] then [''default''] else l) \<and>
   selected_groups sel \<noteq> [] \<and>
   (load s = (s1, None) \<longrightarrow>
      initialize_toolsets load reg sel s h =
        (enable s1 (selected_groups sel),
         register_enabled reg (enable s1 (selected_groups sel)) h) \<and>
      enabled (enable s1 (selected_groups sel)) = enabled s1 \<union> set (selected_groups sel))"
proof (intro conjI impI ballI)
  show "selected_groups Absent = [''default'']" by (simp add: selected_groups_def)
  show "selected_groups (Single str) =
     (let ts = filter (\<lambda>t. t \<noteq> []) (map strip (split (CHR '','') str))
      in if ts = [] then [''default''] else ts)"
    by (simp add: selected_groups_def filter_map_strip)
  show "join (CHR '','') (split (CHR '','') str) = str" by (rule join_split)
  show "\<exists>l r. str = l @ strip str @ r \<and> list_all isspace l \<and> list_all isspace r"
    by (rule strip_decomp)
  show "selected_groups (Single ''rds, custom'') = [''rds'', ''custom'']"
    "selected_groups (Single ''rds,,custom,'') = [''rds'', ''custom'']"
    by (rule selected_groups_examples)+
  show "selected_groups (Listed l) = (if l = [] then [''default''] else l)"
    by (simp add: selected_groups_def)
  show "selected_groups sel \<noteq> []" by (rule selected_groups_not_Nil)
next
  fix t assume "t \<in> set (split (CHR '','') str)"
  then show "CHR '','' \<notin> set t" by (rule split_no_sep)
next
  fix t assume t: "t \<in> set (selected_groups (Single str))"
  from selected_groups_tokens[OF t]
  show "t \<noteq> []" "CHR '','' \<notin> set t" "\<not> isspace (hd t)" "\<not> isspace (last t)" by simp_all
next
  assume "load s = (s1, None)"
  then show "initialize_toolsets load reg sel s h =
        (enable s1 (selected_groups sel),
         register_enabled reg (enable s1 (selected_groups sel)) h)"
    by (simp add: initialize_toolsets_def Let_def split: prod.splits)
  show "enabled (enable s1 (selected_groups sel)) = enabled s1 \<union> set (selected_groups sel)"
    by (rule enable_fields)
qed

theorem initialize_toolsets_selection_witness:
  "selected_groups (Single '' rds ,custom, ,'') = [''rds'', ''custom''] \<and>
   enabled (fst (initialize_toolsets (\<lambda>s. (s, None)) log_host (Single '' rds ,custom, ,'')
                  (ex_registry\<lparr>enabled := {}\<rparr>) [])) = {''rds'', ''custom''} \<and>
   snd (initialize_toolsets (\<lambda>s. (s, None)) log_host (Single '' rds ,custom, ,'')
                  (ex_registry\<lparr>enabled := {}\<rparr>) []) =
     ([(1, [PyStr ''a''], []), (3, [], [])], None)"
proof -
  let ?s = "ex_registry\<lparr>enabled := {}\<rparr>"
  let ?load = "\<lambda>s::ToolsetManager. (s, None::string option)"
  note T = initialize_toolsets_selection [where str = "'' rds ,custom, ,''" and l = Nil
      and load = ?load and s = ?s and ?s1.0 = ?s and reg = log_host
      and sel = "Single '' rds ,custom, ,''" and h = "[]"]
  have sg: "selected_groups (Single '' rds ,custom, ,'') = [''rds'', ''custom'']"
    by (simp add: selected_groups_def strip_def isspace_def)
  have l: "?load ?s = (?s, None)" by simp
  from T l have i: "initialize_toolsets ?load log_host (Single '' rds ,custom, ,'') ?s [] =
        (enable ?s (selected_groups (Single '' rds ,custom, ,'')),
         register_enabled log_host (enable ?s (selected_groups (Single '' rds ,custom, ,''))) [])"
    and e: "enabled (enable ?s (selected_groups (Single '' rds ,custom, ,''))) =
        enabled ?s \<union> set (selected_groups (Single '' rds ,custom, ,''))"
    by blast+
  have r: "register_enabled log_host (enable ?s [''rds'', ''custom'']) [] =
      ([(1, [PyStr ''a''], []), (3, [], [])], None)"
    by (simp add: register_enabled_def tools_values_enable enable_fields tools_values_def
        ex_registry_def log_host_def)
  from i e r sg show ?thesis by auto
qed

end
